theory Spec2Isabelle
  imports Main "HOL-Library.Sublist"
begin

section \<open>The inquiry browser of \<open>src/app/admin/inquiries/page.tsx\<close>\<close>

subsection \<open>JavaScript values\<close>

text \<open>
  The body of a response is typed \<open>any\<close> in \<open>fetchInquiries\<close>: what \<open>response.json()\<close>
  returns is stored in the component state as it is, whatever the declared interfaces say.
  The values are therefore modelled as JavaScript values: the JSON values and
  \<open>undefined\<close> (the result of reading a property that is absent). Numbers are restricted
  to the integers; an object is the list of its own properties.
\<close>

datatype jsval =
    Undefined
  | Null
  | Bool bool
  | Num int
  | Str string
  | Arr "jsval list"
  | Obj "(string \<times> jsval) list"

text \<open>The truthiness that \<open>&&\<close> and \<open>if\<close> test: arrays and objects are always truthy.\<close>

fun truthy :: "jsval \<Rightarrow> bool" where
  "truthy Undefined = False"
| "truthy Null = False"
| "truthy (Bool b) = b"
| "truthy (Num n) = (n \<noteq> 0)"
| "truthy (Str s) = (s \<noteq> [])"
| "truthy (Arr xs) = True"
| "truthy (Obj kvs) = True"

text \<open>
  \<open>read_prop v k\<close> is the value of \<open>v.k\<close> for a value \<open>v\<close> that is neither \<open>null\<close> nor
  \<open>undefined\<close>, for the property names the page reads (\<open>data\<close>, \<open>pagination\<close>,
  \<open>length\<close>, \<open>currentPage\<close> and the fields of a pagination object): an object gives its own
  property or \<open>undefined\<close>, an array and a string have a \<open>length\<close> and none of the others,
  a boolean or a number has none of them.
\<close>

fun read_prop :: "jsval \<Rightarrow> string \<Rightarrow> jsval" where
  "read_prop (Obj kvs) k = (case map_of kvs k of None \<Rightarrow> Undefined | Some v \<Rightarrow> v)"
| "read_prop (Arr xs) k = (if k = ''length'' then Num (int (length xs)) else Undefined)"
| "read_prop (Str s) k = (if k = ''length'' then Num (int (length s)) else Undefined)"
| "read_prop v k = Undefined"

datatype exn =
    TypeError
  | SyntaxError
  | NetworkFailure
  | Error string

text \<open>Reading a property of \<open>null\<close> or \<open>undefined\<close> throws a \<open>TypeError\<close>.\<close>

definition get_prop :: "jsval \<Rightarrow> string \<Rightarrow> exn + jsval" where
  "get_prop v k = (if v = Null \<or> v = Undefined then Inl TypeError else Inr (read_prop v k))"

subsection \<open>Requests, responses and the component state\<close>

text \<open>
  A request to \<open>/api/contact\<close> is its query parameters: \<open>page\<close>, the fixed \<open>limit\<close>, and
  \<open>search\<close>, which \<open>...(search && { search })\<close> adds only for a non-empty term.
\<close>

record request =
  req_page :: int
  req_limit :: nat
  req_search :: "string option"

text \<open>
  What \<open>await fetch(...)\<close> gives: a rejection (the transport failed) or a response with a
  status; \<open>resp_json\<close> is what \<open>response.json()\<close> resolves to, \<open>None\<close> when the body is
  not JSON and the promise rejects.
\<close>

record response =
  resp_status :: nat
  resp_json :: "jsval option"

datatype fetch_outcome = Rejected | Response response

definition response_ok :: "response \<Rightarrow> bool" where
  "response_ok r = (200 \<le> resp_status r \<and> resp_status r \<le> 299)"

text \<open>
  A timer started by \<open>setTimeout\<close> and not yet run or cleared: the id that \<open>setTimeout\<close>
  returned, the time at which it is due, and the \<open>searchTerm\<close> its callback closed over.
\<close>

record timeout =
  timer_id :: nat
  deadline :: nat
  captured :: string

text \<open>
  The state of the component: the \<open>useState\<close> cells, the \<open>hasInitialLoaded\<close> ref, the
  pending timers in the order they were started, the id that the next \<open>setTimeout\<close> returns,
  the id held by the cleanup of the latest run of the debounce effect (its \<open>timer\<close>
  constant), the clock, and the two effects on the outside world, as logs: the requests
  issued and the paths pushed to the router.
\<close>

record page_state =
  inquiries :: jsval
  loading :: bool
  error :: string
  currentPage :: jsval
  searchTerm :: string
  debouncedSearchTerm :: string
  isSearching :: bool
  pagination :: jsval
  hasInitialLoaded :: bool
  timers :: "timeout list"
  next_timer_id :: nat
  effect_timer :: "nat option"
  clock :: nat
  requests :: "request list"
  navigations :: "string list"

definition initial_pagination :: jsval where
  "initial_pagination = Obj
     [(''currentPage'', Num 1), (''totalPages'', Num 1), (''totalCount'', Num 0),
      (''hasNextPage'', Bool False), (''hasPreviousPage'', Bool False), (''limit'', Num 10)]"

definition initial_state :: page_state where
  "initial_state = \<lparr>
     inquiries = Arr [], loading = True, error = [], currentPage = Num 1,
     searchTerm = [], debouncedSearchTerm = [], isSearching = False,
     pagination = initial_pagination, hasInitialLoaded = False,
     timers = [], next_timer_id = 0, effect_timer = None,
     clock = 0, requests = [], navigations = [] \<rparr>"

subsection \<open>\<open>fetchInquiries\<close>\<close>

text \<open>
  The call runs up to the \<open>await\<close> at once: it sets the loading flag and issues the request.
\<close>

definition fetchInquiries_start :: "int \<Rightarrow> string \<Rightarrow> page_state \<Rightarrow> page_state" where
  "fetchInquiries_start page search s =
     s\<lparr> loading := True,
        requests := requests s @
          [\<lparr> req_page = page, req_limit = 10,
             req_search = (if search = [] then None else Some search) \<rparr>] \<rparr>"

text \<open>The pagination object that the fallback branch builds for the old format.\<close>

definition fallback_pagination :: "int \<Rightarrow> jsval \<Rightarrow> jsval" where
  "fallback_pagination page result = Obj
     [(''currentPage'', Num page), (''totalPages'', Num 1),
      (''totalCount'', read_prop result ''length''),
      (''hasNextPage'', Bool False), (''hasPreviousPage'', Bool False), (''limit'', Num 10)]"

text \<open>
  The rest of the \<open>try\<close> block, run when the request settles: \<open>Inl\<close> is an exception thrown
  out of the block. Every \<open>throw\<close> comes before the first state update of the block, so
  the \<open>catch\<close> clause starts from the state the block started from. In the branches,
  \<open>result\<close> and \<open>result.pagination\<close> have been read or found truthy already, so reading
  their properties again cannot throw.
\<close>

definition fetchInquiries_try :: "int \<Rightarrow> fetch_outcome \<Rightarrow> page_state \<Rightarrow> exn + page_state" where
  "fetchInquiries_try page outcome s =
     (case outcome of
        Rejected \<Rightarrow> Inl NetworkFailure
      | Response r \<Rightarrow>
          if resp_status r = 401 then Inr (s\<lparr> navigations := navigations s @ [''/admin/login''] \<rparr>)
          else if \<not> response_ok r then Inl (Error ''Failed to fetch inquiries'')
          else (case resp_json r of
                  None \<Rightarrow> Inl SyntaxError
                | Some result \<Rightarrow>
                    (case get_prop result ''data'' of
                       Inl e \<Rightarrow> Inl e
                     | Inr d \<Rightarrow>
                         if truthy d \<and> truthy (read_prop result ''pagination'') then
                           Inr (s\<lparr> inquiries := read_prop result ''data'',
                                   pagination := read_prop result ''pagination'',
                                   currentPage := read_prop (read_prop result ''pagination'') ''currentPage'' \<rparr>)
                         else
                           Inr (s\<lparr> inquiries := result,
                                   pagination := fallback_pagination page result \<rparr>))))"

text \<open>The \<open>catch\<close> and \<open>finally\<close> clauses around it.\<close>

definition fetchInquiries_settle :: "int \<Rightarrow> fetch_outcome \<Rightarrow> page_state \<Rightarrow> page_state" where
  "fetchInquiries_settle page outcome s =
     (let s' = (case fetchInquiries_try page outcome s of
                  Inl e \<Rightarrow> s\<lparr> error := ''Failed to load inquiries'' \<rparr>
                | Inr s'' \<Rightarrow> s'')
      in s'\<lparr> loading := False \<rparr>)"

text \<open>A whole call with nothing in between: the request, then its outcome.\<close>

definition fetchInquiries :: "int \<Rightarrow> string \<Rightarrow> fetch_outcome \<Rightarrow> page_state \<Rightarrow> page_state" where
  "fetchInquiries page search outcome s =
     fetchInquiries_settle page outcome (fetchInquiries_start page search s)"

subsection \<open>The effects and the handlers\<close>

text \<open>
  The debounce effect (dependencies \<open>searchTerm\<close>, \<open>debouncedSearchTerm\<close>). Its cleanup
  is \<open>clearTimeout(timer)\<close> for the timer that the run being cleaned up started: that
  timer leaves the pending ones, if it is still among them. Its body raises
  \<open>isSearching\<close> when the two terms differ and starts a new timer of 500 ms whose callback
  closes over the current \<open>searchTerm\<close>; the timers already pending stay.
\<close>

definition debounce_cleanup :: "page_state \<Rightarrow> page_state" where
  "debounce_cleanup s =
     (case effect_timer s of
        None \<Rightarrow> s
      | Some i \<Rightarrow> s\<lparr> timers := filter (\<lambda>tm. timer_id tm \<noteq> i) (timers s) \<rparr>)"

definition debounce_effect :: "page_state \<Rightarrow> page_state" where
  "debounce_effect s =
     (let s1 = (if searchTerm s \<noteq> debouncedSearchTerm s then s\<lparr> isSearching := True \<rparr> else s)
      in s1\<lparr> timers := timers s @
               [\<lparr> timer_id = next_timer_id s, deadline = clock s + 500,
                  captured = searchTerm s \<rparr>],
             next_timer_id := Suc (next_timer_id s),
             effect_timer := Some (next_timer_id s) \<rparr>)"

text \<open>The initial load effect (dependencies \<open>fetchInquiries\<close>, \<open>debouncedSearchTerm\<close>).\<close>

definition initial_load_effect :: "page_state \<Rightarrow> page_state" where
  "initial_load_effect s =
     (if \<not> hasInitialLoaded s \<and> debouncedSearchTerm s = []
      then fetchInquiries_start 1 [] (s\<lparr> hasInitialLoaded := True \<rparr>)
      else s)"

text \<open>The fetch effect of the debounced term (dependencies \<open>debouncedSearchTerm\<close>, \<open>fetchInquiries\<close>).\<close>

definition search_fetch_effect :: "page_state \<Rightarrow> page_state" where
  "search_fetch_effect s =
     (if \<not> hasInitialLoaded s then s
      else fetchInquiries_start 1 (debouncedSearchTerm s) (s\<lparr> currentPage := Num 1 \<rparr>))"

text \<open>
  Mounting the component runs the three effects once, in the order of their declaration;
  the ref is an ordinary mutable cell, so a later effect sees what an earlier one wrote.
  \<open>fetchInquiries\<close> depends on the router only, which does not change, so after the mount
  an effect runs again only when \<open>searchTerm\<close> or \<open>debouncedSearchTerm\<close> has changed.
\<close>

definition mount :: "page_state \<Rightarrow> page_state" where
  "mount s = search_fetch_effect (initial_load_effect (debounce_effect s))"

text \<open>
  \<open>handleSearchChange\<close>: \<open>setSearchTerm\<close> with the value the state has already is dropped;
  a new value renders again and runs the debounce effect again, the only effect that
  depends on \<open>searchTerm\<close>.
\<close>

definition handleSearchChange :: "string \<Rightarrow> page_state \<Rightarrow> page_state" where
  "handleSearchChange search s =
     (if search = searchTerm s then s
      else debounce_effect (debounce_cleanup (s\<lparr> searchTerm := search \<rparr>)))"

text \<open>
  The callback of a pending timer, run at its deadline: the timer is no longer pending, the
  term it closed over is committed and \<open>isSearching\<close> is lowered. When the committed term
  has changed, all three effects depend on it and run again in order.
\<close>

definition timer_fires :: "timeout \<Rightarrow> page_state \<Rightarrow> page_state" where
  "timer_fires tm s =
     (let s1 = s\<lparr> clock := max (clock s) (deadline tm), timers := remove1 tm (timers s),
                  debouncedSearchTerm := captured tm, isSearching := False \<rparr>
      in if captured tm = debouncedSearchTerm s then s1
         else search_fetch_effect (initial_load_effect (debounce_effect (debounce_cleanup s1))))"

text \<open>The pending timer that is due first; of two due at the same time, the older one.\<close>

fun earliest :: "timeout list \<Rightarrow> timeout option" where
  "earliest [] = None"
| "earliest (tm # tms) =
     (case earliest tms of
        None \<Rightarrow> Some tm
      | Some tm' \<Rightarrow> if deadline tm \<le> deadline tm' then Some tm else Some tm')"

text \<open>
  Letting time pass up to \<open>t\<close> runs the pending timers that are due, in the order of their
  deadlines, also those started on the way.
\<close>

function run_timers :: "nat \<Rightarrow> page_state \<Rightarrow> page_state" where
  "run_timers t s =
     (case earliest (timers s) of
        None \<Rightarrow> s
      | Some tm \<Rightarrow> if deadline tm \<le> t then run_timers t (timer_fires tm s) else s)"
  by pat_completeness auto
termination
proof (relation "measure (\<lambda>(t, s). sum_list (map (\<lambda>tm. Suc t - deadline tm) (timers s)))")
  show "wf (measure (\<lambda>(t, s). sum_list (map (\<lambda>tm. Suc t - deadline tm) (timers s))))"
    by simp
next
  fix t :: nat and s :: page_state and tm :: timeout
  assume first: "earliest (timers s) = Some tm" and due: "deadline tm \<le> t"
  let ?w = "\<lambda>tm. Suc t - deadline tm"
  let ?rest = "remove1 tm (timers s)"
  let ?d = "max (clock s) (deadline tm) + 500"
  have "earliest tms = Some x \<Longrightarrow> x \<in> set tms" for tms and x :: timeout
    by (induction tms arbitrary: x) (auto split: option.splits if_splits)
  from this [OF first] have total: "sum_list (map ?w (timers s)) = ?w tm + sum_list (map ?w ?rest)"
    by (rule sum_list_map_remove1)
  have cleared: "sum_list (map ?w (filter P ?rest)) \<le> sum_list (map ?w ?rest)" for P
    by (rule sum_list_filter_le_nat)
  have later: "Suc t - ?d < ?w tm"
    using due by simp
  let ?new = "\<lparr> timer_id = next_timer_id s, deadline = ?d, captured = searchTerm s \<rparr>"
  note effects = timer_fires_def debounce_effect_def debounce_cleanup_def
    initial_load_effect_def search_fetch_effect_def fetchInquiries_start_def Let_def
  have same: "timers (timer_fires tm s) = ?rest"
    if "captured tm = debouncedSearchTerm s"
    using that by (simp add: timer_fires_def)
  have started: "timers (timer_fires tm s) = ?rest @ [?new]"
    if "captured tm \<noteq> debouncedSearchTerm s" and "effect_timer s = None"
    using that by (simp add: effects)
  have replaced: "timers (timer_fires tm s) = filter (\<lambda>x. timer_id x \<noteq> i) ?rest @ [?new]"
    if "captured tm \<noteq> debouncedSearchTerm s" and "effect_timer s = Some i" for i
    using that by (simp add: effects)
  have "sum_list (map ?w (timers (timer_fires tm s))) < sum_list (map ?w (timers s))"
  proof (cases "captured tm = debouncedSearchTerm s")
    case True
    with total later same show ?thesis by simp
  next
    case False
    show ?thesis
    proof (cases "effect_timer s")
      case None
      with total later started [OF False] show ?thesis by simp
    next
      case (Some i)
      with total later replaced [OF False] cleared [of "\<lambda>x. timer_id x \<noteq> i"]
      show ?thesis by simp
    qed
  qed
  then show "((t, timer_fires tm s), (t, s))
      \<in> measure (\<lambda>(t, s). sum_list (map (\<lambda>tm. Suc t - deadline tm) (timers s)))"
    by simp
qed

declare run_timers.simps [simp del]

definition wait :: "nat \<Rightarrow> page_state \<Rightarrow> page_state" where
  "wait dt s = (let t = clock s + dt in (run_timers t s)\<lparr> clock := t \<rparr>)"

definition handlePageChange :: "int \<Rightarrow> page_state \<Rightarrow> page_state" where
  "handlePageChange page s =
     fetchInquiries_start page (debouncedSearchTerm s) (s\<lparr> currentPage := Num page \<rparr>)"

text \<open>
  What can happen to the mounted component: time passes, the user changes the search input,
  the user asks for a page, a request issued for some page settles.
\<close>

datatype event =
    Wait nat
  | Input string
  | PageChange int
  | Settle int fetch_outcome

fun step :: "event \<Rightarrow> page_state \<Rightarrow> page_state" where
  "step (Wait dt) s = wait dt s"
| "step (Input v) s = handleSearchChange v s"
| "step (PageChange p) s = handlePageChange p s"
| "step (Settle p outcome) s = fetchInquiries_settle p outcome s"

definition run_from :: "page_state \<Rightarrow> event list \<Rightarrow> page_state" where
  "run_from s es = foldl (\<lambda>s e. step e s) s es"

definition run :: "event list \<Rightarrow> page_state" where
  "run es = run_from (mount initial_state) es"

text \<open>Keystrokes, each after a gap: the events of a burst of typing.\<close>

fun burst :: "(nat \<times> string) list \<Rightarrow> event list" where
  "burst [] = []"
| "burst ((gap, v) # ks) = Wait gap # Input v # burst ks"

subsection \<open>\<open>exportToCSV\<close>\<close>

text \<open>
  The export reads the loaded list through the \<open>Inquiry\<close> interface, so the model takes it at
  that type: \<open>company\<close> and \<open>status\<close> are optional, \<open>status\<close> is one of three tags.
\<close>

datatype inquiry_status = New | Read | Replied

record inquiry =
  inquiry_id :: string
  name :: string
  email :: string
  company :: "string option"
  subject :: string
  message :: string
  timestamp :: string
  status :: "inquiry_status option"

fun status_text :: "inquiry_status \<Rightarrow> string" where
  "status_text New = ''new''"
| "status_text Read = ''read''"
| "status_text Replied = ''replied''"

definition dquote :: char where
  "dquote = CHR 0x22"

definition comma :: char where
  "comma = CHR '',''"

definition newline :: char where
  "newline = CHR 0x0A"

text \<open>\<open>Array.prototype.join\<close> on an array of strings.\<close>

fun join :: "string \<Rightarrow> string list \<Rightarrow> string" where
  "join sep [] = []"
| "join sep [x] = x"
| "join sep (x # y # ys) = x @ sep @ join sep (y # ys)"

text \<open>\<open>s.replace(/c/g, r)\<close> for a pattern that is one character.\<close>

fun replace_all :: "char \<Rightarrow> string \<Rightarrow> string \<Rightarrow> string" where
  "replace_all c r [] = []"
| "replace_all c r (x # xs) = (if x = c then r else [x]) @ replace_all c r xs"

text \<open>\<open>x || d\<close> for an optional string \<open>x\<close>: \<open>undefined\<close> and the empty string are falsy.\<close>

definition or_default :: "string option \<Rightarrow> string \<Rightarrow> string" where
  "or_default x d = (case x of None \<Rightarrow> d | Some v \<Rightarrow> if v = [] then d else v)"

definition headers :: "string list" where
  "headers = [''ID'', ''Name'', ''Email'', ''Company'', ''Subject'', ''Message'', ''Status'',
     ''Timestamp'']"

text \<open>The array that the export builds for one inquiry, before it is joined.\<close>

definition csv_fields :: "inquiry \<Rightarrow> string list" where
  "csv_fields i =
     [inquiry_id i,
      dquote # name i @ [dquote],
      email i,
      or_default (company i) [],
      dquote # subject i @ [dquote],
      dquote # replace_all dquote [dquote, dquote] (message i) @ [dquote],
      or_default (map_option status_text (status i)) ''new'',
      timestamp i]"

definition csv_row :: "inquiry \<Rightarrow> string" where
  "csv_row i = join [comma] (csv_fields i)"

text \<open>The text of the file (\<open>csvContent\<close>) for the loaded list.\<close>

definition exportToCSV :: "inquiry list \<Rightarrow> string" where
  "exportToCSV inqs = join [newline] (join [comma] headers # map csv_row inqs)"

subsection \<open>What a reader of the file and of the pagination sees\<close>

text \<open>
  A CSV reader takes a quoted field up to its closing quote, a doubled quote inside it
  standing for one quote character. \<open>read_quoted\<close> reads such a field at the head of a text
  and returns its content and the text after the closing quote, or \<open>None\<close> when the text
  does not start with a quote or the field is not closed.
\<close>

fun read_quoted_body :: "string \<Rightarrow> (string \<times> string) option" where
  "read_quoted_body [] = None"
| "read_quoted_body [c] = (if c = dquote then Some ([], []) else None)"
| "read_quoted_body (c # c' # cs) =
     (if c = dquote then
        (if c' = dquote
         then map_option (\<lambda>(f, rest). (dquote # f, rest)) (read_quoted_body cs)
         else Some ([], c' # cs))
      else map_option (\<lambda>(f, rest). (c # f, rest)) (read_quoted_body (c' # cs)))"

definition read_quoted :: "string \<Rightarrow> (string \<times> string) option" where
  "read_quoted txt =
     (case txt of [] \<Rightarrow> None | c # cs \<Rightarrow> if c = dquote then read_quoted_body cs else None)"

text \<open>
  The reader starts a new column at each comma outside quotes; every quote character
  opens or closes a quoted stretch (a doubled quote closes and opens again).
\<close>

fun unquoted_commas :: "bool \<Rightarrow> string \<Rightarrow> nat" where
  "unquoted_commas q [] = 0"
| "unquoted_commas q (c # cs) =
     (if c = dquote then unquoted_commas (\<not> q) cs
      else if c = comma \<and> \<not> q then Suc (unquoted_commas q cs)
      else unquoted_commas q cs)"

definition column_count :: "string \<Rightarrow> nat" where
  "column_count row = Suc (unquoted_commas False row)"

text \<open>
  The consistency that the two flags of a \<open>PaginationInfo\<close> are expected to have with its
  page numbers: there is a previous page exactly when the current page is past the first,
  and a next page exactly when it is before the last.
\<close>

definition pagination_consistent :: "jsval \<Rightarrow> bool" where
  "pagination_consistent p =
     (case (read_prop p ''currentPage'', read_prop p ''totalPages'',
            read_prop p ''hasNextPage'', read_prop p ''hasPreviousPage'') of
        (Num c, Num t, Bool has_next, Bool has_prev) \<Rightarrow>
          (has_prev = (1 < c)) \<and> (has_next = (c < t))
      | _ \<Rightarrow> False)"

subsection \<open>Invariants of the mounted component\<close>

text \<open>
  After the mount the ref is set for good, and at most one timer is pending: the one that
  the latest run of the debounce effect started, which closed over the current
  \<open>searchTerm\<close>. Every other timer has run or was cleared by a cleanup.
\<close>

definition mounted_inv :: "page_state \<Rightarrow> bool" where
  "mounted_inv s =
     (hasInitialLoaded s \<and> length (timers s) \<le> 1
      \<and> (\<forall>tm \<in> set (timers s).
            captured tm = searchTerm s \<and> effect_timer s = Some (timer_id tm)))"

text \<open>
  Right after a keystroke the one pending timer is the one just started, a full quiet
  period ahead.
\<close>

definition armed :: "page_state \<Rightarrow> bool" where
  "armed s =
     (case effect_timer s of
        None \<Rightarrow> False
      | Some i \<Rightarrow>
          timers s = [\<lparr> timer_id = i, deadline = clock s + 500, captured = searchTerm s \<rparr>])"

section \<open>Properties\<close>

subsection \<open>Settling a request\<close>

lemma response_ok_not_401: "response_ok r \<Longrightarrow> resp_status r \<noteq> 401"
  by (simp add: response_ok_def)

lemma settle_array:
  assumes "response_ok r" and "resp_json r = Some (Arr xs)"
  shows "fetchInquiries_settle page (Response r) s =
           s\<lparr> inquiries := Arr xs, pagination := fallback_pagination page (Arr xs),
              loading := False \<rparr>"
  using assms response_ok_not_401 [OF assms(1)]
  by (simp add: fetchInquiries_settle_def fetchInquiries_try_def get_prop_def)

text \<open>
  C3. A 2xx response whose body is a bare array: the array becomes the inquiry list, and
  the pagination built for it reports one page in total, the length of the array as the
  total count, and neither a next nor a previous page.
\<close>

theorem bare_array_fallback:
  assumes "response_ok r" and "resp_json r = Some (Arr xs)"
  shows "inquiries (fetchInquiries_settle page (Response r) s) = Arr xs
       \<and> read_prop (pagination (fetchInquiries_settle page (Response r) s)) ''totalPages'' = Num 1
       \<and> read_prop (pagination (fetchInquiries_settle page (Response r) s)) ''totalCount''
           = Num (int (length xs))
       \<and> read_prop (pagination (fetchInquiries_settle page (Response r) s)) ''hasNextPage''
           = Bool False
       \<and> read_prop (pagination (fetchInquiries_settle page (Response r) s)) ''hasPreviousPage''
           = Bool False"
  by (simp add: settle_array [OF assms] fallback_pagination_def)

text \<open>The instance of the specification: an array of length 4, received with status 200.\<close>

theorem bare_array_fallback_witness:
  "response_ok \<lparr> resp_status = 200, resp_json = Some (Arr [Null, Null, Null, Null]) \<rparr>
   \<and> read_prop (pagination (fetchInquiries_settle 1
         (Response \<lparr> resp_status = 200, resp_json = Some (Arr [Null, Null, Null, Null]) \<rparr>)
         initial_state)) ''totalPages'' = Num 1
   \<and> read_prop (pagination (fetchInquiries_settle 1
         (Response \<lparr> resp_status = 200, resp_json = Some (Arr [Null, Null, Null, Null]) \<rparr>)
         initial_state)) ''totalCount'' = Num 4
   \<and> read_prop (pagination (fetchInquiries_settle 1
         (Response \<lparr> resp_status = 200, resp_json = Some (Arr [Null, Null, Null, Null]) \<rparr>)
         initial_state)) ''hasNextPage'' = Bool False"
proof -
  have ok: "response_ok \<lparr> resp_status = 200, resp_json = Some (Arr [Null, Null, Null, Null]) \<rparr>"
    by (simp add: response_ok_def)
  show ?thesis
    using ok bare_array_fallback [OF ok, of "[Null, Null, Null, Null]" 1 initial_state]
    by simp
qed

text \<open>
  C4. A response with a status outside 200..299 other than 401: the error text is set, and
  the inquiry list and the pagination are the ones from before.
\<close>

theorem failed_status_keeps_list:
  assumes "resp_status r \<noteq> 401" and "\<not> response_ok r"
  shows "error (fetchInquiries_settle page (Response r) s) = ''Failed to load inquiries''
       \<and> inquiries (fetchInquiries_settle page (Response r) s) = inquiries s
       \<and> pagination (fetchInquiries_settle page (Response r) s) = pagination s"
  using assms by (simp add: fetchInquiries_settle_def fetchInquiries_try_def)

theorem failed_status_keeps_list_witness:
  "resp_status \<lparr> resp_status = 500, resp_json = None \<rparr> \<noteq> 401
   \<and> \<not> response_ok \<lparr> resp_status = 500, resp_json = None \<rparr>
   \<and> error (fetchInquiries_settle 1 (Response \<lparr> resp_status = 500, resp_json = None \<rparr>)
        initial_state) = ''Failed to load inquiries''
   \<and> inquiries (fetchInquiries_settle 1 (Response \<lparr> resp_status = 500, resp_json = None \<rparr>)
        initial_state) = Arr []"
proof -
  have a: "resp_status \<lparr> resp_status = 500, resp_json = None \<rparr> \<noteq> 401" by simp
  have b: "\<not> response_ok \<lparr> resp_status = 500, resp_json = None \<rparr>"
    by (simp add: response_ok_def)
  show ?thesis
    using a b failed_status_keeps_list [OF a b, of 1 initial_state]
    by (simp add: initial_state_def)
qed

text \<open>
  C5. A response with status 401: the login path is pushed to the router and nothing else
  happens but the end of loading; the inquiry list, the pagination, the current page and
  the error text are the ones from before.
\<close>

theorem unauthenticated_redirects:
  assumes "resp_status r = 401"
  shows "fetchInquiries_settle page (Response r) s =
           s\<lparr> navigations := navigations s @ [''/admin/login''], loading := False \<rparr>
       \<and> error (fetchInquiries_settle page (Response r) s) = error s"
  using assms by (simp add: fetchInquiries_settle_def fetchInquiries_try_def)

theorem unauthenticated_redirects_witness:
  "resp_status \<lparr> resp_status = 401, resp_json = None \<rparr> = 401
   \<and> navigations (fetchInquiries_settle 1 (Response \<lparr> resp_status = 401, resp_json = None \<rparr>)
        initial_state) = [''/admin/login'']
   \<and> error (fetchInquiries_settle 1 (Response \<lparr> resp_status = 401, resp_json = None \<rparr>)
        initial_state) = []"
proof -
  have a: "resp_status \<lparr> resp_status = 401, resp_json = None \<rparr> = 401" by simp
  show ?thesis
    using a unauthenticated_redirects [OF a, of 1 initial_state]
    by (simp add: initial_state_def)
qed

text \<open>
  C10. A 2xx response whose body is not JSON: the error text is set, loading ends, and
  the rest of the state, the inquiry list and the pagination with it, is as before; the
  outcome is the one of a request that failed in transport.
\<close>

theorem malformed_body_fails:
  assumes "response_ok r" and "resp_json r = None"
  shows "fetchInquiries_settle page (Response r) s =
           s\<lparr> error := ''Failed to load inquiries'', loading := False \<rparr>
       \<and> fetchInquiries_settle page (Response r) s = fetchInquiries_settle page Rejected s"
  using assms response_ok_not_401 [OF assms(1)]
  by (simp add: fetchInquiries_settle_def fetchInquiries_try_def)

theorem malformed_body_fails_witness:
  "response_ok \<lparr> resp_status = 200, resp_json = None \<rparr>
   \<and> error (fetchInquiries_settle 1 (Response \<lparr> resp_status = 200, resp_json = None \<rparr>)
        initial_state) = ''Failed to load inquiries''
   \<and> loading (fetchInquiries_settle 1 (Response \<lparr> resp_status = 200, resp_json = None \<rparr>)
        initial_state) = False
   \<and> inquiries (fetchInquiries_settle 1 (Response \<lparr> resp_status = 200, resp_json = None \<rparr>)
        initial_state) = Arr []"
proof -
  have ok: "response_ok \<lparr> resp_status = 200, resp_json = None \<rparr>"
    by (simp add: response_ok_def)
  have body: "resp_json \<lparr> resp_status = 200, resp_json = None \<rparr> = None" by simp
  show ?thesis
    using ok malformed_body_fails [OF ok body, of 1 initial_state]
    by (simp add: initial_state_def)
qed

text \<open>
  C2, as stated, fails: the fallback branch stores the requested page as the current page
  and always reports no previous page. Requested for page 2, a bare array leaves a
  pagination with current page 2 and no previous page.
\<close>

theorem fallback_page_two_counterexample:
  "response_ok \<lparr> resp_status = 200, resp_json = Some (Arr []) \<rparr>
   \<and> \<not> pagination_consistent (pagination (fetchInquiries_settle 2
         (Response \<lparr> resp_status = 200, resp_json = Some (Arr []) \<rparr>) initial_state))"
  by (simp add: response_ok_def fetchInquiries_settle_def fetchInquiries_try_def get_prop_def
        fallback_pagination_def pagination_consistent_def)

text \<open>
  C2, amended. For a bare array the pagination built has the requested page as its current
  page, one page in total and both flags false, so it is consistent exactly when the page
  requested was page 1. For a body with a truthy \<open>data\<close> and a truthy \<open>pagination\<close>, the
  pagination stored is the one received, unchanged, so it is as consistent as the server
  made it.
\<close>

theorem pagination_as_received:
  assumes "response_ok r"
  shows "(resp_json r = Some (Arr xs) \<longrightarrow>
            read_prop (pagination (fetchInquiries_settle page (Response r) s)) ''currentPage''
              = Num page
          \<and> read_prop (pagination (fetchInquiries_settle page (Response r) s)) ''totalPages''
              = Num 1
          \<and> read_prop (pagination (fetchInquiries_settle page (Response r) s)) ''hasNextPage''
              = Bool False
          \<and> read_prop (pagination (fetchInquiries_settle page (Response r) s))
                ''hasPreviousPage'' = Bool False
          \<and> pagination_consistent (pagination (fetchInquiries_settle page (Response r) s))
              = (page = 1))
       \<and> (resp_json r = Some result \<and> truthy (read_prop result ''data'')
            \<and> truthy (read_prop result ''pagination'') \<longrightarrow>
            pagination (fetchInquiries_settle page (Response r) s)
              = read_prop result ''pagination'')"
proof (intro conjI impI)
  assume arr: "resp_json r = Some (Arr xs)"
  note settled = settle_array [OF assms arr]
  show "read_prop (pagination (fetchInquiries_settle page (Response r) s)) ''currentPage''
          = Num page"
    by (simp add: settled fallback_pagination_def)
  show "read_prop (pagination (fetchInquiries_settle page (Response r) s)) ''totalPages''
          = Num 1"
    by (simp add: settled fallback_pagination_def)
  show "read_prop (pagination (fetchInquiries_settle page (Response r) s)) ''hasNextPage''
          = Bool False"
    by (simp add: settled fallback_pagination_def)
  show "read_prop (pagination (fetchInquiries_settle page (Response r) s)) ''hasPreviousPage''
          = Bool False"
    by (simp add: settled fallback_pagination_def)
  show "pagination_consistent (pagination (fetchInquiries_settle page (Response r) s))
          = (page = 1)"
    by (auto simp: settled fallback_pagination_def pagination_consistent_def)
next
  assume a: "resp_json r = Some result \<and> truthy (read_prop result ''data'')
            \<and> truthy (read_prop result ''pagination'')"
  then have "result \<noteq> Null" and "result \<noteq> Undefined" by auto
  with a show "pagination (fetchInquiries_settle page (Response r) s)
              = read_prop result ''pagination''"
    using response_ok_not_401 [OF assms] assms
    by (simp add: fetchInquiries_settle_def fetchInquiries_try_def get_prop_def)
qed

text \<open>
  Page 3 of a bare array has current page 3 and is not consistent, page 1 is; a body with
  \<open>data\<close> and \<open>pagination\<close> hands its pagination over untouched, here one that claims a
  next page on the last page.
\<close>

theorem pagination_as_received_witness:
  "read_prop (pagination (fetchInquiries_settle 3
         (Response \<lparr> resp_status = 200, resp_json = Some (Arr [Null]) \<rparr>) initial_state))
       ''currentPage'' = Num 3
   \<and> \<not> pagination_consistent (pagination (fetchInquiries_settle 3
         (Response \<lparr> resp_status = 200, resp_json = Some (Arr [Null]) \<rparr>) initial_state))
   \<and> pagination_consistent (pagination (fetchInquiries_settle 1
         (Response \<lparr> resp_status = 200, resp_json = Some (Arr [Null]) \<rparr>) initial_state))
   \<and> pagination (fetchInquiries_settle 1
         (Response \<lparr> resp_status = 200, resp_json = Some (Obj
           [(''data'', Arr []),
            (''pagination'', Obj [(''currentPage'', Num 2), (''totalPages'', Num 2),
               (''hasNextPage'', Bool True), (''hasPreviousPage'', Bool True)])]) \<rparr>)
         initial_state)
       = Obj [(''currentPage'', Num 2), (''totalPages'', Num 2),
              (''hasNextPage'', Bool True), (''hasPreviousPage'', Bool True)]"
proof -
  let ?b = "Arr [Null]"
  let ?p = "Obj [(''currentPage'', Num 2), (''totalPages'', Num 2),
              (''hasNextPage'', Bool True), (''hasPreviousPage'', Bool True)]"
  let ?a = "Obj [(''data'', Arr []), (''pagination'', ?p)]"
  have okb: "response_ok \<lparr> resp_status = 200, resp_json = Some ?b \<rparr>"
    by (simp add: response_ok_def)
  have oka: "response_ok \<lparr> resp_status = 200, resp_json = Some ?a \<rparr>"
    by (simp add: response_ok_def)
  show ?thesis
    using pagination_as_received [OF okb, of "[Null]" 3 initial_state ?b]
      pagination_as_received [OF okb, of "[Null]" 1 initial_state ?b]
      pagination_as_received [OF oka, of "[]" 1 initial_state ?a]
    by simp
qed

subsection \<open>The mount\<close>

text \<open>
  C1. The mount issues two requests for page 1 with no search term, not one: the initial
  load effect sets the ref and fetches, and the effect after it, run in the same pass,
  finds the ref set and fetches again.
\<close>

theorem mount_fetches_twice:
  "requests (mount initial_state) =
     [\<lparr> req_page = 1, req_limit = 10, req_search = None \<rparr>,
      \<lparr> req_page = 1, req_limit = 10, req_search = None \<rparr>]"
  by (simp add: mount_def initial_state_def debounce_effect_def initial_load_effect_def
        search_fetch_effect_def fetchInquiries_start_def)

subsection \<open>Timers and the committed search term\<close>

lemma run_timers_idle: "timers s = [] \<Longrightarrow> run_timers t s = s"
  by (subst run_timers.simps) simp

lemma run_timers_pending: "timers s = [tm] \<Longrightarrow> t < deadline tm \<Longrightarrow> run_timers t s = s"
  by (subst run_timers.simps) simp

lemma run_timers_due:
  "timers s = [tm] \<Longrightarrow> deadline tm \<le> t \<Longrightarrow> run_timers t s = run_timers t (timer_fires tm s)"
  by (subst run_timers.simps) simp

lemmas effect_defs = debounce_effect_def debounce_cleanup_def initial_load_effect_def
  search_fetch_effect_def fetchInquiries_start_def

lemma timer_fires_same:
  assumes "timers s = [tm]" and "captured tm = debouncedSearchTerm s"
  shows "timer_fires tm s = s\<lparr> clock := max (clock s) (deadline tm), timers := [],
           debouncedSearchTerm := captured tm, isSearching := False \<rparr>"
  using assms by (simp add: timer_fires_def)

lemma debounce_cleanup_idle: "timers s = [] \<Longrightarrow> debounce_cleanup s = s"
  by (cases "effect_timer s") (simp_all add: debounce_cleanup_def)

lemma initial_load_skip: "hasInitialLoaded s \<Longrightarrow> initial_load_effect s = s"
  by (simp add: initial_load_effect_def)

lemma search_fetch_loaded:
  "hasInitialLoaded s \<Longrightarrow>
     search_fetch_effect s =
       fetchInquiries_start 1 (debouncedSearchTerm s) (s\<lparr> currentPage := Num 1 \<rparr>)"
  by (simp add: search_fetch_effect_def)

lemma timer_fires_new:
  assumes "timers s = [tm]" and "captured tm \<noteq> debouncedSearchTerm s"
    and "hasInitialLoaded s" and "captured tm = searchTerm s"
  shows "timer_fires tm s = s\<lparr> clock := max (clock s) (deadline tm),
           timers := [\<lparr> timer_id = next_timer_id s,
                        deadline = max (clock s) (deadline tm) + 500,
                        captured = captured tm \<rparr>],
           next_timer_id := Suc (next_timer_id s),
           effect_timer := Some (next_timer_id s),
           debouncedSearchTerm := captured tm, isSearching := False, currentPage := Num 1,
           loading := True,
           requests := requests s @ [\<lparr> req_page = 1, req_limit = 10,
             req_search = (if captured tm = [] then None else Some (captured tm)) \<rparr>] \<rparr>"
proof -
  let ?s1 = "s\<lparr> clock := max (clock s) (deadline tm), timers := remove1 tm (timers s),
                debouncedSearchTerm := captured tm, isSearching := False \<rparr>"
  let ?s2 = "debounce_effect ?s1"
  have idle: "timers ?s1 = []" using assms(1) by simp
  have loaded: "hasInitialLoaded ?s2"
    using assms(3) by (simp add: debounce_effect_def Let_def)
  have committed: "debouncedSearchTerm ?s2 = captured tm"
    by (simp add: debounce_effect_def Let_def)
  have "timer_fires tm s = search_fetch_effect (initial_load_effect (debounce_effect (debounce_cleanup ?s1)))"
    using assms(2) by (simp add: timer_fires_def Let_def)
  also have "\<dots> = search_fetch_effect ?s2"
    by (simp only: debounce_cleanup_idle [OF idle] initial_load_skip [OF loaded])
  also have "\<dots> = fetchInquiries_start 1 (captured tm) (?s2\<lparr> currentPage := Num 1 \<rparr>)"
    by (simp only: search_fetch_loaded [OF loaded] committed)
  also have "?s2 = s\<lparr> clock := max (clock s) (deadline tm),
           timers := [\<lparr> timer_id = next_timer_id s,
                        deadline = max (clock s) (deadline tm) + 500,
                        captured = captured tm \<rparr>],
           next_timer_id := Suc (next_timer_id s),
           effect_timer := Some (next_timer_id s),
           debouncedSearchTerm := captured tm, isSearching := False \<rparr>"
    using assms(1,4) by (simp add: debounce_effect_def Let_def)
  finally show ?thesis
    by (simp add: fetchInquiries_start_def)
qed

lemma debounce_cleanup_keeps:
  "searchTerm (debounce_cleanup s) = searchTerm s"
  "debouncedSearchTerm (debounce_cleanup s) = debouncedSearchTerm s"
  "requests (debounce_cleanup s) = requests s"
  "currentPage (debounce_cleanup s) = currentPage s"
  "hasInitialLoaded (debounce_cleanup s) = hasInitialLoaded s"
  "clock (debounce_cleanup s) = clock s"
  "next_timer_id (debounce_cleanup s) = next_timer_id s"
  "effect_timer (debounce_cleanup s) = effect_timer s"
  by (cases "effect_timer s"; simp add: debounce_cleanup_def)+

lemma handleSearchChange_keeps:
  "debouncedSearchTerm (handleSearchChange v s) = debouncedSearchTerm s"
  "requests (handleSearchChange v s) = requests s"
  "currentPage (handleSearchChange v s) = currentPage s"
  "hasInitialLoaded (handleSearchChange v s) = hasInitialLoaded s"
  "searchTerm (handleSearchChange v s) = v"
  by (simp_all add: handleSearchChange_def debounce_effect_def Let_def debounce_cleanup_keeps)

lemma mounted_inv_cases:
  assumes "mounted_inv s"
  obtains (idle) "timers s = []"
    | (one) tm where "timers s = [tm]" and "captured tm = searchTerm s"
        and "effect_timer s = Some (timer_id tm)"
proof (cases "timers s")
  case Nil
  then show ?thesis by (rule idle)
next
  case (Cons tm tms)
  with assms have "tms = []" by (simp add: mounted_inv_def)
  with Cons assms show ?thesis by (intro one [of tm]) (simp_all add: mounted_inv_def)
qed

lemma mounted_inv_mount: "mounted_inv (mount initial_state)"
  by (simp add: mounted_inv_def mount_def initial_state_def effect_defs)

lemma mounted_inv_timer_fires:
  assumes "mounted_inv s" and "timers s = [tm]"
  shows "mounted_inv (timer_fires tm s)"
proof -
  from assms have tm: "captured tm = searchTerm s" and loaded: "hasInitialLoaded s"
    by (simp_all add: mounted_inv_def)
  show ?thesis
  proof (cases "captured tm = debouncedSearchTerm s")
    case True
    from loaded show ?thesis
      by (simp add: timer_fires_same [OF assms(2) True] mounted_inv_def)
  next
    case False
    from loaded tm show ?thesis
      by (simp add: timer_fires_new [OF assms(2) False loaded tm] mounted_inv_def)
  qed
qed

lemma mounted_inv_run_timers: "mounted_inv s \<Longrightarrow> mounted_inv (run_timers t s)"
proof (induction t s rule: run_timers.induct)
  case (1 t s)
  from "1.prems" show ?case
  proof (cases rule: mounted_inv_cases)
    case idle
    with 1 show ?thesis by (simp add: run_timers_idle)
  next
    case (one tm)
    show ?thesis
    proof (cases "deadline tm \<le> t")
      case True
      have "earliest (timers s) = Some tm" using one(1) by simp
      from "1.IH" [OF this True mounted_inv_timer_fires [OF "1.prems" one(1)]]
      show ?thesis by (simp add: run_timers_due [OF one(1) True])
    next
      case False
      then show ?thesis using "1.prems" by (simp add: run_timers_pending [OF one(1)])
    qed
  qed
qed

lemma settle_keeps:
  "timers (fetchInquiries_settle p outcome s) = timers s
   \<and> searchTerm (fetchInquiries_settle p outcome s) = searchTerm s
   \<and> debouncedSearchTerm (fetchInquiries_settle p outcome s) = debouncedSearchTerm s
   \<and> effect_timer (fetchInquiries_settle p outcome s) = effect_timer s
   \<and> hasInitialLoaded (fetchInquiries_settle p outcome s) = hasInitialLoaded s"
  by (simp add: fetchInquiries_settle_def fetchInquiries_try_def Let_def
      split: fetch_outcome.splits option.splits sum.splits)

lemma mounted_inv_settle: "mounted_inv s \<Longrightarrow> mounted_inv (fetchInquiries_settle p outcome s)"
  by (simp add: mounted_inv_def settle_keeps)

lemma mounted_inv_input:
  assumes "mounted_inv s"
  shows "mounted_inv (handleSearchChange v s)"
  using assms
proof (cases rule: mounted_inv_cases)
  case idle
  with assms show ?thesis
    by (simp add: handleSearchChange_def mounted_inv_def effect_defs split: option.splits)
next
  case (one tm)
  with assms show ?thesis
    by (simp add: handleSearchChange_def mounted_inv_def effect_defs)
qed

lemma mounted_inv_step: "mounted_inv s \<Longrightarrow> mounted_inv (step e s)"
proof (cases e)
  case (Wait dt)
  assume "mounted_inv s"
  from mounted_inv_run_timers [OF this, of "clock s + dt"]
  show ?thesis using Wait by (simp add: wait_def mounted_inv_def Let_def)
next
  case (Input v)
  assume "mounted_inv s"
  then show ?thesis using Input by (simp add: mounted_inv_input)
next
  case (PageChange p)
  assume "mounted_inv s"
  then show ?thesis using PageChange
    by (simp add: handlePageChange_def mounted_inv_def effect_defs)
next
  case (Settle p outcome)
  assume "mounted_inv s"
  then show ?thesis using Settle by (simp add: mounted_inv_settle)
qed

lemma mounted_inv_run_from: "mounted_inv s \<Longrightarrow> mounted_inv (run_from s es)"
  unfolding run_from_def
  by (induction es arbitrary: s) (simp_all add: mounted_inv_step)

lemma mounted_inv_run: "mounted_inv (run es)"
  by (simp add: run_def mounted_inv_run_from mounted_inv_mount)

lemma run_snoc: "run (es @ [e]) = step e (run es)"
  by (simp add: run_def run_from_def)

lemma run_append: "run (es @ es') = run_from (run es) es'"
  by (simp add: run_def run_from_def)

lemma run_timers_commit:
  assumes inv: "mounted_inv s" and tm: "timers s = [tm]" and due: "deadline tm \<le> t"
    and new: "captured tm \<noteq> debouncedSearchTerm s"
  shows "debouncedSearchTerm (run_timers t s) = captured tm
       \<and> requests (run_timers t s) = requests s @
            [\<lparr> req_page = 1, req_limit = 10,
               req_search = (if captured tm = [] then None else Some (captured tm)) \<rparr>]
       \<and> currentPage (run_timers t s) = Num 1"
proof -
  from inv tm have v: "captured tm = searchTerm s" and loaded: "hasInitialLoaded s"
    by (simp_all add: mounted_inv_def)
  let ?s1 = "timer_fires tm s"
  let ?tm1 = "\<lparr> timer_id = next_timer_id s, deadline = max (clock s) (deadline tm) + 500,
                 captured = captured tm \<rparr>"
  note fired = timer_fires_new [OF tm new loaded v]
  have tm1: "timers ?s1 = [?tm1]" and deb1: "captured ?tm1 = debouncedSearchTerm ?s1"
    by (simp_all add: fired)
  have first: "run_timers t s = run_timers t ?s1"
    by (rule run_timers_due [OF tm due])
  show ?thesis
  proof (cases "deadline ?tm1 \<le> t")
    case True
    have "run_timers t ?s1 = run_timers t (timer_fires ?tm1 ?s1)"
      by (rule run_timers_due [OF tm1 True])
    also have "\<dots> = timer_fires ?tm1 ?s1"
      by (rule run_timers_idle) (simp add: timer_fires_same [OF tm1 deb1])
    finally have "run_timers t s = timer_fires ?tm1 ?s1" using first by simp
    then show ?thesis
      by (simp add: timer_fires_same [OF tm1 deb1]) (simp add: fired)
  next
    case False
    then have "run_timers t ?s1 = ?s1"
      using run_timers_pending [OF tm1, of t] by simp
    with first show ?thesis by (simp add: fired)
  qed
qed

lemma run_timers_no_commit:
  assumes inv: "mounted_inv s"
    and quiet: "\<And>tm. timers s = [tm] \<Longrightarrow> t < deadline tm \<or> captured tm = debouncedSearchTerm s"
  shows "debouncedSearchTerm (run_timers t s) = debouncedSearchTerm s
       \<and> requests (run_timers t s) = requests s
       \<and> searchTerm (run_timers t s) = searchTerm s
       \<and> currentPage (run_timers t s) = currentPage s"
  using inv
proof (cases rule: mounted_inv_cases)
  case idle
  then show ?thesis by (simp add: run_timers_idle)
next
  case (one tm)
  show ?thesis
  proof (cases "t < deadline tm")
    case True
    then show ?thesis by (simp add: run_timers_pending [OF one(1)])
  next
    case False
    with quiet [OF one(1)] have same: "captured tm = debouncedSearchTerm s"
      and due: "deadline tm \<le> t" by simp_all
    have "run_timers t s = run_timers t (timer_fires tm s)"
      by (rule run_timers_due [OF one(1) due])
    also have "\<dots> = timer_fires tm s"
      by (rule run_timers_idle) (simp add: timer_fires_same [OF one(1) same])
    finally show ?thesis using same by (simp add: timer_fires_same [OF one(1) same])
  qed
qed

lemma wait_commit:
  assumes inv: "mounted_inv s"
    and changed: "debouncedSearchTerm (wait dt s) \<noteq> debouncedSearchTerm s"
  shows "requests (wait dt s) = requests s @
            [\<lparr> req_page = 1, req_limit = 10,
               req_search = (if debouncedSearchTerm (wait dt s) = [] then None
                             else Some (debouncedSearchTerm (wait dt s))) \<rparr>]
       \<and> currentPage (wait dt s) = Num 1"
proof -
  let ?t = "clock s + dt"
  have "\<not> (\<forall>tm. timers s = [tm] \<longrightarrow> ?t < deadline tm \<or> captured tm = debouncedSearchTerm s)"
  proof
    assume "\<forall>tm. timers s = [tm] \<longrightarrow> ?t < deadline tm \<or> captured tm = debouncedSearchTerm s"
    then have "debouncedSearchTerm (run_timers ?t s) = debouncedSearchTerm s"
      using run_timers_no_commit [OF inv, of ?t] by blast
    with changed show False by (simp add: wait_def Let_def)
  qed
  then obtain tm where tm: "timers s = [tm]" and due: "deadline tm \<le> ?t"
    and new: "captured tm \<noteq> debouncedSearchTerm s"
    by (auto simp: not_less)
  from run_timers_commit [OF inv tm due new] show ?thesis
    by (simp add: wait_def Let_def)
qed

lemma step_keeps_committed:
  assumes "\<And>dt. e \<noteq> Wait dt"
  shows "debouncedSearchTerm (step e s) = debouncedSearchTerm s"
proof (cases e)
  case (Wait dt)
  with assms [of dt] show ?thesis by simp
next
  case (Input v)
  then show ?thesis by (simp add: handleSearchChange_keeps)
next
  case (PageChange p)
  then show ?thesis by (simp add: handlePageChange_def effect_defs)
next
  case (Settle p outcome)
  then show ?thesis
    by (simp add: settle_keeps)
qed

text \<open>
  C6. Whenever an event changes the committed search term of the mounted component,
  whatever the current page was, that event issues exactly one request, for page 1 and
  the new committed term, and sets the current page to 1.
\<close>

theorem search_change_resets_page:
  assumes "debouncedSearchTerm (run (es @ [e])) \<noteq> debouncedSearchTerm (run es)"
  shows "requests (run (es @ [e])) = requests (run es) @
            [\<lparr> req_page = 1, req_limit = 10,
               req_search = (if debouncedSearchTerm (run (es @ [e])) = [] then None
                             else Some (debouncedSearchTerm (run (es @ [e])))) \<rparr>]
       \<and> currentPage (run (es @ [e])) = Num 1"
proof -
  from assms have changed: "debouncedSearchTerm (step e (run es)) \<noteq> debouncedSearchTerm (run es)"
    by (simp add: run_snoc)
  then obtain dt where e: "e = Wait dt"
    using step_keeps_committed [of e "run es"] by blast
  from changed wait_commit [OF mounted_inv_run, of dt es] show ?thesis
    by (simp add: run_snoc e)
qed

text \<open>On page 3, a search for \<open>a\<close> is committed: the request is for page 1.\<close>

theorem search_change_resets_page_witness:
  "debouncedSearchTerm (run ([PageChange 3, Input ''a''] @ [Wait 500]))
     \<noteq> debouncedSearchTerm (run [PageChange 3, Input ''a''])
   \<and> currentPage (run [PageChange 3, Input ''a'']) = Num 3
   \<and> requests (run ([PageChange 3, Input ''a''] @ [Wait 500]))
       = requests (run [PageChange 3, Input ''a'']) @
           [\<lparr> req_page = 1, req_limit = 10, req_search = Some ''a'' \<rparr>]"
proof -
  have a: "debouncedSearchTerm (run ([PageChange 3, Input ''a''] @ [Wait 500])) = ''a''"
    by code_simp
  have b: "debouncedSearchTerm (run [PageChange 3, Input ''a'']) = []"
    by code_simp
  have c: "currentPage (run [PageChange 3, Input ''a'']) = Num 3"
    by code_simp
  from a b have h: "debouncedSearchTerm (run ([PageChange 3, Input ''a''] @ [Wait 500]))
     \<noteq> debouncedSearchTerm (run [PageChange 3, Input ''a''])" by simp
  show ?thesis
    using h c search_change_resets_page [OF h] a by simp
qed


subsection \<open>The debounce\<close>

lemma armedD:
  assumes "armed s"
  obtains i where "effect_timer s = Some i"
    and "timers s = [\<lparr> timer_id = i, deadline = clock s + 500, captured = searchTerm s \<rparr>]"
  using assms by (cases "effect_timer s") (simp_all add: armed_def)

lemma cleanup_clears:
  assumes "\<forall>tm \<in> set (timers s). effect_timer s = Some (timer_id tm)"
  shows "timers (debounce_cleanup s) = []"
  using assms
  by (cases "effect_timer s") (auto simp: debounce_cleanup_def filter_empty_conv)

lemma debounce_effect_arms: "timers s = [] \<Longrightarrow> armed (debounce_effect s)"
  by (simp add: armed_def debounce_effect_def Let_def)

lemma input_arms:
  assumes "\<forall>tm \<in> set (timers s). effect_timer s = Some (timer_id tm)"
    and "v \<noteq> searchTerm s"
  shows "armed (handleSearchChange v s)"
proof -
  from assms(1) have "timers (debounce_cleanup (s\<lparr> searchTerm := v \<rparr>)) = []"
    by (intro cleanup_clears) simp
  from debounce_effect_arms [OF this] assms(2) show ?thesis
    by (simp add: handleSearchChange_def)
qed

lemma short_wait:
  assumes "armed s" and "gap < 500"
  shows "wait gap s = s\<lparr> clock := clock s + gap \<rparr>"
proof -
  from assms(1) obtain i where
    tm: "timers s = [\<lparr> timer_id = i, deadline = clock s + 500, captured = searchTerm s \<rparr>]"
    by (rule armedD)
  from assms(2) have "clock s + gap < deadline \<lparr> timer_id = i, deadline = clock s + 500,
    captured = searchTerm s \<rparr>" by simp
  from run_timers_pending [OF tm this] show ?thesis
    by (simp add: wait_def Let_def)
qed

lemma keystroke_rearms:
  assumes "armed s" and "gap < 500" and "v \<noteq> searchTerm s"
  shows "armed (handleSearchChange v (wait gap s))"
    and "searchTerm (handleSearchChange v (wait gap s)) = v"
    and "requests (handleSearchChange v (wait gap s)) = requests s"
    and "debouncedSearchTerm (handleSearchChange v (wait gap s)) = debouncedSearchTerm s"
proof -
  from assms(1) obtain i where i: "effect_timer s = Some i"
    and tm: "timers s = [\<lparr> timer_id = i, deadline = clock s + 500, captured = searchTerm s \<rparr>]"
    by (rule armedD)
  note w = short_wait [OF assms(1,2)]
  have "\<forall>tm \<in> set (timers (wait gap s)). effect_timer (wait gap s) = Some (timer_id tm)"
    by (simp add: w i tm)
  moreover have "v \<noteq> searchTerm (wait gap s)" using assms(3) by (simp add: w)
  ultimately show "armed (handleSearchChange v (wait gap s))" by (rule input_arms)
  show "searchTerm (handleSearchChange v (wait gap s)) = v"
    and "requests (handleSearchChange v (wait gap s)) = requests s"
    and "debouncedSearchTerm (handleSearchChange v (wait gap s)) = debouncedSearchTerm s"
    by (simp_all add: handleSearchChange_keeps w)
qed

lemma run_from_Nil: "run_from s [] = s"
  by (simp add: run_from_def)

lemma run_from_Cons: "run_from s (e # es) = run_from (step e s) es"
  by (simp add: run_from_def)

lemma run_from_append: "run_from s (es @ es') = run_from (run_from s es) es'"
  by (simp add: run_from_def)

lemma burst_quiet:
  assumes "armed s" and "\<forall>k \<in> set ks. fst k < 500"
    and "distinct_adj (searchTerm s # map snd ks)"
  shows "armed (run_from s (burst ks))
       \<and> searchTerm (run_from s (burst ks)) = last (searchTerm s # map snd ks)
       \<and> requests (run_from s (burst ks)) = requests s
       \<and> debouncedSearchTerm (run_from s (burst ks)) = debouncedSearchTerm s"
  using assms
proof (induction ks arbitrary: s)
  case Nil
  then show ?case by (simp add: run_from_Nil)
next
  case (Cons k ks)
  obtain gap v where k: "k = (gap, v)" by (cases k)
  from Cons.prems k have gap: "gap < 500" and v: "v \<noteq> searchTerm s"
    and rest: "\<forall>k \<in> set ks. fst k < 500" by auto
  let ?s = "handleSearchChange v (wait gap s)"
  note key = keystroke_rearms [OF Cons.prems(1) gap v]
  from Cons.prems(3) k key(2) have "distinct_adj (searchTerm ?s # map snd ks)"
    by simp
  from Cons.IH [OF key(1) rest this] show ?case
    by (simp add: k run_from_Cons key del: last.simps) simp
qed

lemma burst_prefix_quiet:
  assumes "armed s" and "\<forall>k \<in> set ks. fst k < 500"
    and "distinct_adj (searchTerm s # map snd ks)"
    and "prefix es' (burst ks)"
  shows "requests (run_from s es') = requests s
       \<and> debouncedSearchTerm (run_from s es') = debouncedSearchTerm s"
  using assms
proof (induction ks arbitrary: s es')
  case Nil
  then show ?case by (simp add: run_from_Nil)
next
  case (Cons k ks)
  obtain gap v where k: "k = (gap, v)" by (cases k)
  from Cons.prems k have gap: "gap < 500" and v: "v \<noteq> searchTerm s"
    and rest: "\<forall>k \<in> set ks. fst k < 500" by auto
  let ?s = "handleSearchChange v (wait gap s)"
  note key = keystroke_rearms [OF Cons.prems(1) gap v]
  from Cons.prems(3) k key(2) have adj: "distinct_adj (searchTerm ?s # map snd ks)"
    by simp
  from Cons.prems(4) k consider "es' = []" | "es' = [Wait gap]"
    | es'' where "es' = Wait gap # Input v # es''" and "prefix es'' (burst ks)"
    by (auto simp: prefix_Cons)
  then show ?case
  proof cases
    case 1
    then show ?thesis by (simp add: run_from_Nil)
  next
    case 2
    then show ?thesis
      by (simp add: run_from_Cons run_from_Nil short_wait [OF Cons.prems(1) gap])
  next
    case 3
    from Cons.IH [OF key(1) rest adj 3(2)] show ?thesis
      by (simp add: 3(1) run_from_Cons key)
  qed
qed

lemma quiet_commit:
  assumes inv: "mounted_inv s" and arm: "armed s" and quiet: "500 \<le> quiet"
  shows "debouncedSearchTerm (wait quiet s) = searchTerm s
       \<and> requests (wait quiet s) = requests s @
            (if searchTerm s = debouncedSearchTerm s then []
             else [\<lparr> req_page = 1, req_limit = 10,
                      req_search = (if searchTerm s = [] then None else Some (searchTerm s)) \<rparr>])"
proof -
  from arm obtain i where
    tm: "timers s = [\<lparr> timer_id = i, deadline = clock s + 500, captured = searchTerm s \<rparr>]"
    by (rule armedD)
  let ?tm = "\<lparr> timer_id = i, deadline = clock s + 500, captured = searchTerm s \<rparr>"
  from quiet have due: "deadline ?tm \<le> clock s + quiet" by simp
  show ?thesis
  proof (cases "searchTerm s = debouncedSearchTerm s")
    case True
    have "\<And>tm. timers s = [tm] \<Longrightarrow>
        clock s + quiet < deadline tm \<or> captured tm = debouncedSearchTerm s"
      using tm True by simp
    from run_timers_no_commit [OF inv this] True show ?thesis
      by (simp add: wait_def Let_def)
  next
    case False
    have new: "captured ?tm \<noteq> debouncedSearchTerm s" using False by simp
    from run_timers_commit [OF inv tm due new] False show ?thesis
      by (simp add: wait_def Let_def)
  qed
qed

text \<open>
  C7, as stated, fails in one respect: the last value of a burst does not always set off
  a request. The user types \<open>a\<close> and clears the input again 250 ms later: after the
  quiet period the committed term is the empty one it was before, no effect runs, and the
  only requests are those of the mount.
\<close>

theorem retyped_term_counterexample:
  "debouncedSearchTerm (run ([] @ Input ''a'' # burst [(250, [])] @ [Wait 500])) = []
   \<and> requests (run ([] @ Input ''a'' # burst [(250, [])] @ [Wait 500])) = requests (run [])"
  by code_simp

text \<open>
  C7, amended. The user types \<open>v\<close> and then the values \<open>ks\<close>, each a change of the input and
  each less than 500 ms after the one before, and then leaves the input alone for 500 ms
  or more. Then the committed search term is the last value typed; nothing was committed
  and no request was issued at any point before the end of the typing; and the only
  request issued at all is the one for page 1 with the last value, issued exactly when
  that value differs from the term committed before.
\<close>

theorem debounce_commits_last:
  assumes gaps: "\<forall>k \<in> set ks. fst k < 500"
    and changes: "distinct_adj (searchTerm (run es) # v # map snd ks)"
    and quiet: "500 \<le> quiet"
  shows "debouncedSearchTerm (run (es @ Input v # burst ks @ [Wait quiet])) = last (v # map snd ks)
       \<and> requests (run (es @ Input v # burst ks @ [Wait quiet])) = requests (run es) @
            (if last (v # map snd ks) = debouncedSearchTerm (run es) then []
             else [\<lparr> req_page = 1, req_limit = 10,
                      req_search = (if last (v # map snd ks) = [] then None
                                    else Some (last (v # map snd ks))) \<rparr>])
       \<and> (\<forall>es'. prefix es' (Input v # burst ks) \<longrightarrow>
             requests (run (es @ es')) = requests (run es)
           \<and> debouncedSearchTerm (run (es @ es')) = debouncedSearchTerm (run es))"
proof -
  let ?s1 = "handleSearchChange v (run es)"
  let ?sn = "run_from ?s1 (burst ks)"
  from changes have v: "v \<noteq> searchTerm (run es)" by auto
  have "\<forall>tm \<in> set (timers (run es)). effect_timer (run es) = Some (timer_id tm)"
    using mounted_inv_run [of es] by (simp add: mounted_inv_def)
  from input_arms [OF this v]
  have s1: "armed ?s1" "searchTerm ?s1 = v" "requests ?s1 = requests (run es)"
    "debouncedSearchTerm ?s1 = debouncedSearchTerm (run es)"
    by (simp_all add: handleSearchChange_keeps)
  from changes s1(2) have adj: "distinct_adj (searchTerm ?s1 # map snd ks)"
    by simp
  note typed = burst_quiet [OF s1(1) gaps adj]
  have inv: "mounted_inv ?sn"
    using mounted_inv_run_from [OF mounted_inv_step [OF mounted_inv_run, of "Input v" es]]
    by simp
  have whole: "run (es @ Input v # burst ks @ [Wait quiet]) = wait quiet ?sn"
    by (simp add: run_append run_from_Cons run_from_append run_from_Nil)
  have final: "debouncedSearchTerm (wait quiet ?sn) = last (v # map snd ks)
     \<and> requests (wait quiet ?sn) = requests (run es) @
            (if last (v # map snd ks) = debouncedSearchTerm (run es) then []
             else [\<lparr> req_page = 1, req_limit = 10,
                      req_search = (if last (v # map snd ks) = [] then None
                                    else Some (last (v # map snd ks))) \<rparr>])"
    using quiet_commit [OF inv conjunct1 [OF typed] quiet] typed
    by (simp add: s1 del: last.simps)
  have during: "requests (run (es @ es')) = requests (run es)
           \<and> debouncedSearchTerm (run (es @ es')) = debouncedSearchTerm (run es)"
    if pre: "prefix es' (Input v # burst ks)" for es'
  proof -
    from pre consider "es' = []" | es'' where "es' = Input v # es''" and "prefix es'' (burst ks)"
      by (auto simp: prefix_Cons)
    then show ?thesis
    proof cases
      case 1
      then show ?thesis by simp
    next
      case 2
      from burst_prefix_quiet [OF s1(1) gaps adj 2(2)] show ?thesis
        by (simp add: 2(1) run_append run_from_Cons s1)
    qed
  qed
  from final during show ?thesis by (simp only: whole) blast
qed

text \<open>Typing \<open>a\<close>, \<open>ab\<close>, \<open>abc\<close> with gaps of 100 and 499 ms: one request, for \<open>abc\<close>.\<close>

theorem debounce_commits_last_witness:
  "distinct_adj (searchTerm (run [Wait 600]) # ''a'' # map snd [(100::nat, ''ab''), (499, ''abc'')])
   \<and> debouncedSearchTerm
        (run ([Wait 600] @ Input ''a'' # burst [(100, ''ab''), (499, ''abc'')] @ [Wait 500]))
       = ''abc''
   \<and> requests
        (run ([Wait 600] @ Input ''a'' # burst [(100, ''ab''), (499, ''abc'')] @ [Wait 500]))
       = requests (run [Wait 600]) @
           [\<lparr> req_page = 1, req_limit = 10, req_search = Some ''abc'' \<rparr>]"
proof -
  have g: "\<forall>k \<in> set [(100, ''ab''), (499, ''abc'')]. fst k < (500::nat)" by simp
  have raw: "searchTerm (run [Wait 600]) = []" by code_simp
  have committed: "debouncedSearchTerm (run [Wait 600]) = []" by code_simp
  have c: "distinct_adj (searchTerm (run [Wait 600]) # ''a''
             # map snd [(100::nat, ''ab''), (499, ''abc'')])"
    by (simp add: raw)
  have q: "(500::nat) \<le> 500" by simp
  note main = debounce_commits_last [OF g c q]
  have one: "debouncedSearchTerm
        (run ([Wait 600] @ Input ''a'' # burst [(100, ''ab''), (499, ''abc'')] @ [Wait 500]))
       = ''abc''"
    using conjunct1 [OF main] by (simp del: burst.simps)
  have two: "requests
        (run ([Wait 600] @ Input ''a'' # burst [(100, ''ab''), (499, ''abc'')] @ [Wait 500]))
       = requests (run [Wait 600]) @
           [\<lparr> req_page = 1, req_limit = 10, req_search = Some ''abc'' \<rparr>]"
    using conjunct1 [OF conjunct2 [OF main]] committed by (simp del: burst.simps)
  from c one two show ?thesis by blast
qed



subsection \<open>The CSV export\<close>

lemma dquote_not_comma: "dquote \<noteq> comma"
  by (simp add: dquote_def comma_def)

lemma join_headers: "join [comma] headers = ''ID,Name,Email,Company,Subject,Message,Status,Timestamp''"
  by (simp add: headers_def comma_def)

lemma join_lines: "join [newline] (l # ls) = l @ concat (map (\<lambda>x. newline # x) ls)"
  by (induction ls arbitrary: l) simp_all

lemma replace_all_concat:
  "replace_all c r xs = concat (map (\<lambda>x. if x = c then r else [x]) xs)"
  by (induction xs) simp_all

lemma status_field:
  "or_default (map_option status_text st) ''new''
     = (case st of None \<Rightarrow> ''new'' | Some t \<Rightarrow> status_text t)"
proof (cases st)
  case None
  then show ?thesis by (simp add: or_default_def)
next
  case (Some t)
  then show ?thesis by (cases t) (simp_all add: or_default_def)
qed

lemma read_quoted_body_skip:
  assumes "c \<noteq> dquote" and "t \<noteq> []"
  shows "read_quoted_body (c # t) = map_option (\<lambda>(f, rest). (c # f, rest)) (read_quoted_body t)"
  using assms by (cases t) simp_all

lemma read_quoted_body_close:
  assumes "rest = [] \<or> hd rest \<noteq> dquote"
  shows "read_quoted_body (dquote # rest) = Some ([], rest)"
  using assms by (cases rest) auto

lemma read_escaped:
  assumes "rest = [] \<or> hd rest \<noteq> dquote"
  shows "read_quoted_body (replace_all dquote [dquote, dquote] m @ dquote # rest) = Some (m, rest)"
proof (induction m)
  case Nil
  show ?case by (simp add: read_quoted_body_close [OF assms])
next
  case (Cons x xs)
  show ?case
  proof (cases "x = dquote")
    case True
    then show ?thesis using Cons.IH by simp
  next
    case False
    have "replace_all dquote [dquote, dquote] xs @ dquote # rest \<noteq> []" by simp
    from read_quoted_body_skip [OF False this] Cons.IH False show ?thesis by simp
  qed
qed

text \<open>
  C8. The file is the header line followed by one line per loaded inquiry, in order. The
  line of an inquiry has the eight columns id, name, email, company or nothing, subject,
  message, status or \<open>new\<close>, timestamp, separated by commas; name, subject and message are
  wrapped in double quotes, and every double quote inside the message is doubled, so that
  a reader of quoted fields gets the message back and stops at the comma after it.
\<close>

theorem export_rows:
  "exportToCSV inqs =
     ''ID,Name,Email,Company,Subject,Message,Status,Timestamp''
       @ concat (map (\<lambda>i. newline # csv_row i) inqs)
   \<and> csv_row i =
       inquiry_id i @ [comma]
       @ [dquote] @ name i @ [dquote] @ [comma]
       @ email i @ [comma]
       @ (case company i of None \<Rightarrow> [] | Some c \<Rightarrow> c) @ [comma]
       @ [dquote] @ subject i @ [dquote] @ [comma]
       @ [dquote] @ concat (map (\<lambda>c. if c = dquote then [dquote, dquote] else [c]) (message i))
           @ [dquote] @ [comma]
       @ (case status i of None \<Rightarrow> ''new'' | Some t \<Rightarrow> status_text t) @ [comma]
       @ timestamp i
   \<and> read_quoted ([dquote] @ replace_all dquote [dquote, dquote] (message i) @ [dquote]
                    @ [comma] @ rest)
       = Some (message i, [comma] @ rest)"
proof (intro conjI)
  show "exportToCSV inqs =
     ''ID,Name,Email,Company,Subject,Message,Status,Timestamp''
       @ concat (map (\<lambda>i. newline # csv_row i) inqs)"
    by (simp add: exportToCSV_def join_lines join_headers comp_def)
next
  have co: "or_default (company i) [] = (case company i of None \<Rightarrow> [] | Some c \<Rightarrow> c)"
    by (simp add: or_default_def split: option.splits)
  show "csv_row i =
       inquiry_id i @ [comma]
       @ [dquote] @ name i @ [dquote] @ [comma]
       @ email i @ [comma]
       @ (case company i of None \<Rightarrow> [] | Some c \<Rightarrow> c) @ [comma]
       @ [dquote] @ subject i @ [dquote] @ [comma]
       @ [dquote] @ concat (map (\<lambda>c. if c = dquote then [dquote, dquote] else [c]) (message i))
           @ [dquote] @ [comma]
       @ (case status i of None \<Rightarrow> ''new'' | Some t \<Rightarrow> status_text t) @ [comma]
       @ timestamp i"
    by (simp add: csv_row_def csv_fields_def status_field co replace_all_concat)
next
  have "comma # rest = [] \<or> hd (comma # rest) \<noteq> dquote"
    using dquote_not_comma by simp
  from read_escaped [OF this, of "message i"]
  show "read_quoted ([dquote] @ replace_all dquote [dquote, dquote] (message i) @ [dquote]
                    @ [comma] @ rest)
       = Some (message i, [comma] @ rest)"
    by (simp add: read_quoted_def)
qed


text \<open>A message \<open>a"b\<close> is written \<open>"a""b"\<close>.\<close>

theorem export_rows_witness:
  "csv_row \<lparr> inquiry_id = ''7'', name = ''Ann'', email = ''a@x.io'', company = None,
       subject = ''Hi'', message = [CHR ''a'', dquote, CHR ''b''], timestamp = ''t'',
       status = None \<rparr>
     = ''7,'' @ [dquote] @ ''Ann'' @ [dquote] @ '',a@x.io,,'' @ [dquote] @ ''Hi'' @ [dquote]
       @ '','' @ [dquote] @ [CHR ''a'', dquote, dquote, CHR ''b''] @ [dquote] @ '',new,t''"
  using conjunct1 [OF conjunct2 [OF export_rows [of "[]"
    "\<lparr> inquiry_id = ''7'', name = ''Ann'', email = ''a@x.io'', company = None,
       subject = ''Hi'', message = [CHR ''a'', dquote, CHR ''b''], timestamp = ''t'',
       status = None \<rparr>" "[]"]]]
  by (simp add: comma_def dquote_def)

lemma escaped_length:
  "length (replace_all dquote [dquote, dquote] m) = length m + count_list m dquote"
  by (induction m) simp_all

lemma read_quoted_body_sound:
  "read_quoted_body inp = Some (f, rest) \<Longrightarrow>
     inp = replace_all dquote [dquote, dquote] f @ dquote # rest"
proof (induction inp arbitrary: f rule: read_quoted_body.induct)
  case 1
  then show ?case by simp
next
  case (2 c)
  then show ?case by (simp split: if_splits)
next
  case (3 c c' cs)
  show ?case
  proof (cases "c = dquote")
    case True
    note c = this
    show ?thesis
    proof (cases "c' = dquote")
      case True
      with c "3.prems" obtain g where g: "read_quoted_body cs = Some (g, rest)"
        and f: "f = dquote # g" by auto
      from "3.IH"(1) [OF c True g] f c True show ?thesis by simp
    next
      case False
      with c "3.prems" show ?thesis by simp
    qed
  next
    case False
    with "3.prems" obtain g where g: "read_quoted_body (c' # cs) = Some (g, rest)"
      and f: "f = c # g" by auto
    from "3.IH"(2) [OF False g] f False show ?thesis by simp
  qed
qed

lemma verbatim_not_read_back:
  assumes "dquote \<in> set nm"
  shows "read_quoted ([dquote] @ nm @ [dquote] @ rest) \<noteq> Some (nm, rest)"
proof
  assume "read_quoted ([dquote] @ nm @ [dquote] @ rest) = Some (nm, rest)"
  then have "read_quoted_body (nm @ dquote # rest) = Some (nm, rest)"
    by (simp add: read_quoted_def)
  from read_quoted_body_sound [OF this]
  have "nm = replace_all dquote [dquote, dquote] nm" by simp
  then have "length nm = length (replace_all dquote [dquote, dquote] nm)" by simp
  then have "count_list nm dquote = 0" by (simp add: escaped_length)
  with assms show False by (simp add: count_list_0_iff)
qed

lemma commas_plain:
  assumes "dquote \<notin> set xs"
  shows "unquoted_commas False (xs @ ys) = count_list xs comma + unquoted_commas False ys"
  using assms by (induction xs) auto

lemma commas_quoted_plain:
  assumes "dquote \<notin> set xs"
  shows "unquoted_commas True (xs @ dquote # ys) = unquoted_commas False ys"
  using assms by (induction xs) auto

lemma commas_quoted_escaped:
  "unquoted_commas True (replace_all dquote [dquote, dquote] m @ dquote # ys)
     = unquoted_commas False ys"
  by (induction m) auto

lemma commas_end:
  assumes "dquote \<notin> set xs"
  shows "unquoted_commas False xs = count_list xs comma"
  using commas_plain [OF assms, of "[]"] by simp

lemma status_field_plain:
  "dquote \<notin> set (or_default (map_option status_text st) ''new'')
   \<and> count_list (or_default (map_option status_text st) ''new'') comma = 0"
proof (cases st)
  case None
  then show ?thesis by (simp add: or_default_def dquote_def comma_def)
next
  case (Some t)
  then show ?thesis by (cases t) (simp_all add: or_default_def dquote_def comma_def)
qed

lemma row_columns:
  assumes "dquote \<notin> set (inquiry_id i)" and "dquote \<notin> set (name i)"
    and "dquote \<notin> set (email i)" and "dquote \<notin> set (or_default (company i) [])"
    and "dquote \<notin> set (subject i)" and "dquote \<notin> set (timestamp i)"
  shows "column_count (csv_row i) =
           8 + count_list (inquiry_id i) comma + count_list (email i) comma
             + count_list (or_default (company i) []) comma + count_list (timestamp i) comma"
proof -
  let ?st = "or_default (map_option status_text (status i)) ''new''"
  let ?co = "or_default (company i) []"
  have c: "unquoted_commas False (comma # ys) = Suc (unquoted_commas False ys)" for ys
    using dquote_not_comma by auto
  have q: "unquoted_commas False (dquote # ys) = unquoted_commas True ys" for ys
    by simp
  note st = status_field_plain [of "status i"]
  have row: "csv_row i = inquiry_id i @ comma # dquote # name i @ dquote # comma
                 # email i @ comma # ?co @ comma # dquote # subject i @ dquote # comma
                 # dquote # replace_all dquote [dquote, dquote] (message i) @ dquote # comma
                 # ?st @ comma # timestamp i"
    by (simp add: csv_row_def csv_fields_def)
  have "unquoted_commas False (csv_row i) =
          count_list (inquiry_id i) comma + Suc (Suc (count_list (email i) comma
            + Suc (count_list ?co comma + Suc (Suc (Suc (count_list ?st comma
            + Suc (count_list (timestamp i) comma)))))))"
    by (simp only: row q c commas_plain [OF assms(1)] commas_plain [OF assms(3)]
        commas_plain [OF assms(4)] commas_plain [OF conjunct1 [OF st]]
        commas_quoted_plain [OF assms(2)] commas_quoted_plain [OF assms(5)]
        commas_quoted_escaped commas_end [OF assms(6)])
  then show ?thesis
    using conjunct2 [OF st] by (simp add: column_count_def)
qed


text \<open>
  C9, as stated, fails in one respect: a comma in an unquoted field does not always make
  one more column. A name that ends in a double quote leaves the quoting of the line
  open across the email, so the reader finds two columns in the line whether the email
  has a comma or not.
\<close>

theorem open_quote_counterexample:
  "column_count
     (csv_row \<lparr> inquiry_id = ''7'', name = [CHR ''A'', dquote], email = ''a,b@x.io'',
        company = None, subject = ''Hi'', message = ''m'', timestamp = ''t'',
        status = None \<rparr>) = 2
   \<and> column_count
        (csv_row \<lparr> inquiry_id = ''7'', name = [CHR ''A'', dquote], email = ''ab@x.io'',
           company = None, subject = ''Hi'', message = ''m'', timestamp = ''t'',
           status = None \<rparr>) = 2"
  by (simp add: column_count_def csv_row_def csv_fields_def or_default_def dquote_def
        comma_def)

text \<open>
  C9, amended. Name and subject are put between quotes as they are: a double quote inside
  one of them is not doubled, and a reader of quoted fields does not get such a name or
  subject back. Email, company, status and timestamp are written without quotes (and so
  is the id; the status is one of three words without a comma). For a record with no
  double quote in id, name, email, company, subject and timestamp, the reader finds eight
  columns and one more for every comma in the id, the email, the company and the
  timestamp.
\<close>

theorem only_message_escaped:
  "csv_fields i ! 1 = [dquote] @ name i @ [dquote]
   \<and> csv_fields i ! 4 = [dquote] @ subject i @ [dquote]
   \<and> (dquote \<in> set (name i) \<longrightarrow>
        read_quoted (csv_fields i ! 1 @ rest) \<noteq> Some (name i, rest))
   \<and> (dquote \<in> set (subject i) \<longrightarrow>
        read_quoted (csv_fields i ! 4 @ rest) \<noteq> Some (subject i, rest))
   \<and> csv_fields i ! 2 = email i
   \<and> csv_fields i ! 3 = or_default (company i) []
   \<and> csv_fields i ! 6 = or_default (map_option status_text (status i)) ''new''
   \<and> csv_fields i ! 7 = timestamp i
   \<and> (dquote \<notin> set (inquiry_id i @ name i @ email i @ or_default (company i) []
                        @ subject i @ timestamp i) \<longrightarrow>
        column_count (csv_row i) =
          8 + count_list (inquiry_id i) comma + count_list (email i) comma
            + count_list (or_default (company i) []) comma + count_list (timestamp i) comma)"
proof -
  have fields: "csv_fields i ! 1 = [dquote] @ name i @ [dquote]"
    "csv_fields i ! 4 = [dquote] @ subject i @ [dquote]"
    "csv_fields i ! 2 = email i"
    "csv_fields i ! 3 = or_default (company i) []"
    "csv_fields i ! 6 = or_default (map_option status_text (status i)) ''new''"
    "csv_fields i ! 7 = timestamp i"
    by (simp_all add: csv_fields_def)
  have nm: "read_quoted (csv_fields i ! 1 @ rest) \<noteq> Some (name i, rest)"
    if "dquote \<in> set (name i)"
    using verbatim_not_read_back [OF that, of rest] by (simp add: csv_fields_def)
  have sb: "read_quoted (csv_fields i ! 4 @ rest) \<noteq> Some (subject i, rest)"
    if "dquote \<in> set (subject i)"
    using verbatim_not_read_back [OF that, of rest] by (simp add: csv_fields_def)
  have cols: "column_count (csv_row i) =
          8 + count_list (inquiry_id i) comma + count_list (email i) comma
            + count_list (or_default (company i) []) comma + count_list (timestamp i) comma"
    if "dquote \<notin> set (inquiry_id i @ name i @ email i @ or_default (company i) []
                        @ subject i @ timestamp i)"
    using that by (intro row_columns) simp_all
  from fields nm sb cols show ?thesis by blast
qed

text \<open>
  A name \<open>A"B\<close> is not read back; an email and a company with one comma each make ten
  columns.
\<close>

theorem only_message_escaped_witness:
  "read_quoted
     (csv_fields \<lparr> inquiry_id = ''7'', name = [CHR ''A'', dquote, CHR ''B''], email = ''a@x.io'',
         company = None, subject = ''Hi'', message = ''m'', timestamp = ''t'',
         status = None \<rparr> ! 1 @ '',a@x.io'')
     \<noteq> Some ([CHR ''A'', dquote, CHR ''B''], '',a@x.io'')
   \<and> column_count
        (csv_row \<lparr> inquiry_id = ''7'', name = ''Ann'', email = ''a,b@x.io'',
           company = Some ''Acme, Inc'', subject = ''Hi'', message = ''m'', timestamp = ''t'',
           status = None \<rparr>) = 10"
proof -
  let ?r1 = "\<lparr> inquiry_id = ''7'', name = [CHR ''A'', dquote, CHR ''B''], email = ''a@x.io'',
         company = None, subject = ''Hi'', message = ''m'', timestamp = ''t'',
         status = None \<rparr>"
  let ?r2 = "\<lparr> inquiry_id = ''7'', name = ''Ann'', email = ''a,b@x.io'',
           company = Some ''Acme, Inc'', subject = ''Hi'', message = ''m'', timestamp = ''t'',
           status = None \<rparr>"
  have q: "dquote \<in> set (name ?r1)" by simp
  have plain: "dquote \<notin> set (inquiry_id ?r2 @ name ?r2 @ email ?r2 @ or_default (company ?r2) []
                        @ subject ?r2 @ timestamp ?r2)"
    by (simp add: dquote_def or_default_def)
  from only_message_escaped [of ?r1 "'',a@x.io''"] q
  have one: "read_quoted (csv_fields ?r1 ! 1 @ '',a@x.io'')
     \<noteq> Some (name ?r1, '',a@x.io'')" by blast
  from only_message_escaped [of ?r2] plain
  have "column_count (csv_row ?r2) =
          8 + count_list (inquiry_id ?r2) comma + count_list (email ?r2) comma
            + count_list (or_default (company ?r2) []) comma + count_list (timestamp ?r2) comma"
    by blast
  then have two: "column_count (csv_row ?r2) = 10"
    by (simp add: comma_def or_default_def)
  from one two show ?thesis by simp
qed


end
